theory Spec2Isabelle
  imports Main
begin

section \<open>The translator of \<^verbatim>\<open>cd_project.py\<close>: lexer, parser and the two generators\<close>

text \<open>
  A text is a list of characters. A Python \<^verbatim>\<open>str\<close> is a sequence of code points; the
  embedding covers the code points below 256, one \<^typ>\<open>char\<close> each, and classifies them
  the way Python's \<^verbatim>\<open>re\<close> module does for a \<^verbatim>\<open>str\<close> pattern (Unicode classes).
\<close>

subsection \<open>Tokenizer\<close>

text \<open>The group names of \<^verbatim>\<open>token_spec\<close>, in the order of the source.\<close>

datatype kind =
  DEF | PRINT | STRING | NUMBER | ASSIGN | LPAREN | RPAREN | COLON | COMMA | PLUS
  | ID | NEWLINE | SKIP | MISMATCH

type_synonym token = "kind \<times> string"

text \<open>
  A Python exception is a value: \<^verbatim>\<open>RuntimeError\<close> with its message, \<^verbatim>\<open>SyntaxError\<close> with
  what its message is built from, and the \<^verbatim>\<open>IndexError\<close> of a list read out of range.
\<close>

datatype syntax_msg =
  Expected kind "token option"  \<comment> \<open>\<^verbatim>\<open>Expected {expected_type}, got {tokens[i] or 'EOF'}\<close>\<close>
  | Unsupported                 \<comment> \<open>\<^verbatim>\<open>Unsupported statement.\<close>\<close>

datatype error = RuntimeError string | SyntaxError syntax_msg | IndexError

definition is_digit :: "char \<Rightarrow> bool" where
  \<comment> \<open>\<^verbatim>\<open>\d\<close>: the decimal digits; below 256 these are 0 to 9.\<close>
  "is_digit c = (let n = (of_char c :: nat) in 48 \<le> n \<and> n \<le> 57)"

definition is_id_start :: "char \<Rightarrow> bool" where
  \<comment> \<open>\<^verbatim>\<open>[A-Za-z_]\<close>\<close>
  "is_id_start c =
     (let n = (of_char c :: nat) in (65 \<le> n \<and> n \<le> 90) \<or> (97 \<le> n \<and> n \<le> 122) \<or> n = 95)"

definition is_word :: "char \<Rightarrow> bool" where
  \<comment> \<open>\<^verbatim>\<open>\w\<close>: alphanumeric in Unicode's sense, or the underscore.\<close>
  "is_word c =
     (let n = (of_char c :: nat) in
        is_digit c \<or> is_id_start c \<or> n \<in> {170, 178, 179, 181, 185, 186, 188, 189, 190}
        \<or> (192 \<le> n \<and> n \<le> 214) \<or> (216 \<le> n \<and> n \<le> 246) \<or> 248 \<le> n)"

definition is_blank :: "char \<Rightarrow> bool" where
  \<comment> \<open>\<^verbatim>\<open>[ \t]\<close>\<close>
  "is_blank c = (c = CHR '' '' \<or> c = CHR 0x09)"

text \<open>
  A pattern is tried at a scan position: it sees the character before the position (none at
  the start of the text) and the text from the position on, and gives the length of its
  match. \<^verbatim>\<open>\b\<close> holds between a word character and a non-word character, where the two
  ends of the text count as non-word.
\<close>

type_synonym pattern = "char option \<Rightarrow> string \<Rightarrow> nat option"

definition word_before :: "char option \<Rightarrow> bool" where
  "word_before p = (case p of None \<Rightarrow> False | Some c \<Rightarrow> is_word c)"

definition word_at :: "string \<Rightarrow> bool" where
  "word_at s = (case s of [] \<Rightarrow> False | c # _ \<Rightarrow> is_word c)"

definition re_keyword :: "string \<Rightarrow> pattern" where
  \<comment> \<open>\<^verbatim>\<open>\bdef\b\<close>, \<^verbatim>\<open>\bprint\b\<close>: the keyword is made of word characters\<close>
  "re_keyword w p s =
     (if take (length w) s = w \<and> \<not> word_before p \<and> \<not> word_at (drop (length w) s)
      then Some (length w) else None)"

definition re_string :: pattern where
  \<comment> \<open>\<^verbatim>\<open>"[^"]*"\<close>: up to the next quote, if there is one\<close>
  "re_string p s =
     (case s of [] \<Rightarrow> None
      | c # r \<Rightarrow>
          if c = CHR 0x22 then
            (let n = length (takeWhile (\<lambda>x. x \<noteq> CHR 0x22) r)
             in if n < length r then Some (n + 2) else None)
          else None)"

definition re_number :: pattern where
  \<comment> \<open>\<^verbatim>\<open>\d+\<close>\<close>
  "re_number p s =
     (let n = length (takeWhile is_digit s) in if 0 < n then Some n else None)"

definition re_char :: "char \<Rightarrow> pattern" where
  \<comment> \<open>a single literal character\<close>
  "re_char a p s = (case s of [] \<Rightarrow> None | c # _ \<Rightarrow> if c = a then Some 1 else None)"

definition re_id :: pattern where
  \<comment> \<open>\<^verbatim>\<open>[A-Za-z_]\w*\<close>\<close>
  "re_id p s =
     (case s of [] \<Rightarrow> None
      | c # r \<Rightarrow> if is_id_start c then Some (Suc (length (takeWhile is_word r))) else None)"

definition re_skip :: pattern where
  \<comment> \<open>\<^verbatim>\<open>[ \t]+\<close>\<close>
  "re_skip p s =
     (let n = length (takeWhile is_blank s) in if 0 < n then Some n else None)"

definition re_dot :: pattern where
  \<comment> \<open>\<^verbatim>\<open>.\<close>: any character but the newline\<close>
  "re_dot p s = (case s of [] \<Rightarrow> None | c # _ \<Rightarrow> if c = CHR 0x0A then None else Some 1)"

definition token_spec :: "(kind \<times> pattern) list" where
  "token_spec =
     [(DEF, re_keyword ''def''),
      (PRINT, re_keyword ''print''),
      (STRING, re_string),
      (NUMBER, re_number),
      (ASSIGN, re_char (CHR ''='')),
      (LPAREN, re_char (CHR ''('')),
      (RPAREN, re_char (CHR '')'')),
      (COLON, re_char (CHR '':'')),
      (COMMA, re_char (CHR '','')),
      (PLUS, re_char (CHR ''+'')),
      (ID, re_id),
      (NEWLINE, re_char (CHR 0x0A)),
      (SKIP, re_skip),
      (MISMATCH, re_dot)]"

text \<open>
  \<^verbatim>\<open>tok_regex\<close> joins the patterns with \<^verbatim>\<open>|\<close>: at a position the first alternative that
  matches wins, and \<^verbatim>\<open>lastgroup\<close> is its name.
\<close>

fun tok_regex :: "(kind \<times> pattern) list \<Rightarrow> char option \<Rightarrow> string \<Rightarrow> (kind \<times> nat) option" where
  "tok_regex [] p s = None"
| "tok_regex ((k, m) # ps) p s =
     (case m p s of Some n \<Rightarrow> Some (k, n) | None \<Rightarrow> tok_regex ps p s)"

lemma re_keyword_bounds:
  assumes "re_keyword w p s = Some n" and "w \<noteq> []"
  shows "0 < n \<and> n \<le> length s"
proof -
  from assms(1) have n: "n = length w" and t: "take (length w) s = w"
    by (auto simp: re_keyword_def split: if_splits)
  from t have "length (take (length w) s) = length w" by simp
  then have "length w \<le> length s" by simp
  with n assms(2) show ?thesis by simp
qed

lemma re_string_bounds: "re_string p s = Some n \<Longrightarrow> 0 < n \<and> n \<le> length s"
  by (auto simp: re_string_def Let_def split: list.splits if_splits)

lemma re_number_bounds: "re_number p s = Some n \<Longrightarrow> 0 < n \<and> n \<le> length s"
  by (auto simp: re_number_def Let_def length_takeWhile_le split: if_splits)

lemma re_char_bounds: "re_char a p s = Some n \<Longrightarrow> 0 < n \<and> n \<le> length s"
  by (auto simp: re_char_def split: list.splits if_splits)

lemma re_id_bounds: "re_id p s = Some n \<Longrightarrow> 0 < n \<and> n \<le> length s"
  by (auto simp: re_id_def length_takeWhile_le split: list.splits if_splits)

lemma re_skip_bounds: "re_skip p s = Some n \<Longrightarrow> 0 < n \<and> n \<le> length s"
  by (auto simp: re_skip_def Let_def length_takeWhile_le split: if_splits)

lemma re_dot_bounds: "re_dot p s = Some n \<Longrightarrow> 0 < n \<and> n \<le> length s"
  by (auto simp: re_dot_def split: list.splits if_splits)

lemmas pattern_bounds =
  re_keyword_bounds re_string_bounds re_number_bounds re_char_bounds re_id_bounds
  re_skip_bounds re_dot_bounds

lemma tok_regex_bounds:
  assumes "tok_regex token_spec p s = Some (k, n)"
  shows "0 < n \<and> n \<le> length s"
  using assms unfolding token_spec_def
  by (auto split: option.splits dest: pattern_bounds)

text \<open>
  \<^verbatim>\<open>re.finditer\<close>: the matches from left to right, each search starting where the last match
  ended; a position where nothing matches is passed over.
\<close>

function finditer :: "char option \<Rightarrow> string \<Rightarrow> token list" where
  "finditer p s =
     (if s = [] then []
      else case tok_regex token_spec p s of
             None \<Rightarrow> finditer (Some (hd s)) (tl s)
           | Some (k, n) \<Rightarrow> (k, take n s) # finditer (Some (s ! (n - 1))) (drop n s))"
  by pat_completeness auto
termination
proof (relation "measure (\<lambda>(p, s). length s)")
  show "wf (measure (\<lambda>(p, s). length s))" by simp
next
  fix p :: "char option" and s :: string
  assume "s \<noteq> []"
  then show "((Some (hd s), tl s), (p, s)) \<in> measure (\<lambda>(p, s). length s)"
    by (cases s) simp_all
next
  fix p :: "char option" and s :: string and x2 :: "kind \<times> nat" and k n
  assume "s \<noteq> []" and "tok_regex token_spec p s = Some x2" and "(k, n) = x2"
  then have "0 < n" using tok_regex_bounds [of p s k n] by simp
  with \<open>s \<noteq> []\<close> show "((Some (s ! (n - 1)), drop n s), (p, s)) \<in> measure (\<lambda>(p, s). length s)"
    by simp
qed

declare finditer.simps [simp del]

text \<open>The loop of \<^verbatim>\<open>tokenize\<close> over the matches, with the list \<^verbatim>\<open>tokens\<close> it builds.\<close>

fun tokenize_loop :: "token list \<Rightarrow> token list \<Rightarrow> error + token list" where
  "tokenize_loop [] tokens = Inr tokens"
| "tokenize_loop ((kind, val) # ms) tokens =
     (if kind = SKIP \<or> kind = NEWLINE then tokenize_loop ms tokens
      else if kind = MISMATCH then Inl (RuntimeError (''Unexpected character: '' @ val))
      else tokenize_loop ms (tokens @ [(kind, val)]))"

definition tokenize :: "string \<Rightarrow> error + token list" where
  "tokenize code = tokenize_loop (finditer None code) []"

subsection \<open>Parser\<close>

text \<open>
  The syntax nodes are the dictionaries the parser builds: \<^verbatim>\<open>'type': 'print'\<close> with
  \<^verbatim>\<open>left\<close> and \<^verbatim>\<open>right\<close>, \<^verbatim>\<open>'type': 'function'\<close> with \<^verbatim>\<open>name\<close>, \<^verbatim>\<open>param\<close> and
  \<^verbatim>\<open>body\<close>, \<^verbatim>\<open>'type': 'call'\<close> with \<^verbatim>\<open>name\<close> and \<^verbatim>\<open>arg\<close>.
\<close>

datatype stmt = Print (left: string) (right: string)

datatype node =
  Function (name: string) (param: string) (body: "stmt list")
  | Call (name: string) (arg: string)

text \<open>An exception raised by a step ends the steps after it.\<close>

definition bind_result :: "error + 'a \<Rightarrow> ('a \<Rightarrow> error + 'b) \<Rightarrow> error + 'b" where
  "bind_result m f = (case m of Inl e \<Rightarrow> Inl e | Inr x \<Rightarrow> f x)"

text \<open>
  \<^verbatim>\<open>match\<close> reads the cursor \<^verbatim>\<open>i\<close> of the enclosing function and advances it: here it
  takes the cursor and returns the text of the token with the new cursor.
\<close>

definition match :: "token list \<Rightarrow> nat \<Rightarrow> kind \<Rightarrow> error + (string \<times> nat)" where
  "match tokens i expected_type =
     (if i < length tokens \<and> fst (tokens ! i) = expected_type
      then Inr (snd (tokens ! i), i + 1)
      else Inl (SyntaxError
             (Expected expected_type (if i < length tokens then Some (tokens ! i) else None))))"

text \<open>
  The branch of the loop for a \<^verbatim>\<open>DEF\<close> token. After the colon the source reads
  \<^verbatim>\<open>tokens[i][0]\<close> with no test of \<^verbatim>\<open>i\<close>: out of range, the read raises \<^verbatim>\<open>IndexError\<close>.
\<close>

definition parse_function :: "token list \<Rightarrow> nat \<Rightarrow> error + (node \<times> nat)" where
  "parse_function tokens i =
     bind_result (match tokens i DEF) (\<lambda>(_, i).
     bind_result (match tokens i ID) (\<lambda>(func_name, i).
     bind_result (match tokens i LPAREN) (\<lambda>(_, i).
     bind_result (match tokens i ID) (\<lambda>(param, i).
     bind_result (match tokens i RPAREN) (\<lambda>(_, i).
     bind_result (match tokens i COLON) (\<lambda>(_, i).
       if \<not> i < length tokens then Inl IndexError
       else if fst (tokens ! i) = PRINT then
         bind_result (match tokens i PRINT) (\<lambda>(_, i).
         bind_result (match tokens i LPAREN) (\<lambda>(_, i).
         bind_result (match tokens i STRING) (\<lambda>(left, i).
         bind_result (match tokens i PLUS) (\<lambda>(_, i).
         bind_result (match tokens i ID) (\<lambda>(right, i).
         bind_result (match tokens i RPAREN) (\<lambda>(_, i).
           Inr (Function func_name param [Print left right], i)))))))
       else Inr (Function func_name param [], i)))))))"

text \<open>The branch for an \<^verbatim>\<open>ID\<close> token followed by \<^verbatim>\<open>LPAREN\<close>.\<close>

definition parse_call :: "token list \<Rightarrow> nat \<Rightarrow> error + (node \<times> nat)" where
  "parse_call tokens i =
     bind_result (match tokens i ID) (\<lambda>(func_name, i).
     bind_result (match tokens i LPAREN) (\<lambda>(_, i).
     bind_result (match tokens i STRING) (\<lambda>(arg, i).
     bind_result (match tokens i RPAREN) (\<lambda>(_, i).
       Inr (Call func_name arg, i)))))"

lemma match_advances: "match tokens i k = Inr (v, j) \<Longrightarrow> j = Suc i \<and> j \<le> length tokens"
  by (auto simp: match_def split: if_splits)

lemma parse_function_advances:
  assumes "parse_function tokens i = Inr (nd, j)"
  shows "i < j \<and> j \<le> length tokens"
  using assms unfolding parse_function_def bind_result_def
  by (auto split: sum.splits if_splits dest!: match_advances)

lemma parse_call_advances:
  assumes "parse_call tokens i = Inr (nd, j)"
  shows "i < j \<and> j \<le> length tokens"
  using assms unfolding parse_call_def bind_result_def
  by (auto split: sum.splits dest!: match_advances)

text \<open>The \<^verbatim>\<open>while\<close> loop of \<^verbatim>\<open>parse_tokens\<close>, with the cursor and the list \<^verbatim>\<open>ast\<close>.\<close>

function parse_loop :: "token list \<Rightarrow> nat \<Rightarrow> node list \<Rightarrow> error + node list" where
  "parse_loop tokens i ast =
     (if i < length tokens then
        if fst (tokens ! i) = DEF then
          (case parse_function tokens i of
             Inl e \<Rightarrow> Inl e
           | Inr (nd, j) \<Rightarrow> parse_loop tokens j (ast @ [nd]))
        else if fst (tokens ! i) = ID \<and> i + 1 < length tokens \<and> fst (tokens ! (i + 1)) = LPAREN then
          (case parse_call tokens i of
             Inl e \<Rightarrow> Inl e
           | Inr (nd, j) \<Rightarrow> parse_loop tokens j (ast @ [nd]))
        else Inl (SyntaxError Unsupported)
      else Inr ast)"
  by pat_completeness auto
termination
proof (relation "measure (\<lambda>(tokens, i, ast). length tokens - i)")
  show "wf (measure (\<lambda>(tokens, i, ast). length tokens - i))" by simp
next
  fix tokens :: "token list" and i :: nat and ast :: "node list" and b x y
  assume "parse_function tokens i = Inr b" and "(x, y) = b"
  then have "i < y \<and> y \<le> length tokens" using parse_function_advances [of tokens i x y] by simp
  then have "length tokens - y < length tokens - i" by arith
  then show "((tokens, y, ast @ [x]), (tokens, i, ast))
      \<in> measure (\<lambda>(tokens, i, ast). length tokens - i)"
    by simp
next
  fix tokens :: "token list" and i :: nat and ast :: "node list" and b x y
  assume "parse_call tokens i = Inr b" and "(x, y) = b"
  then have "i < y \<and> y \<le> length tokens" using parse_call_advances [of tokens i x y] by simp
  then have "length tokens - y < length tokens - i" by arith
  then show "((tokens, y, ast @ [x]), (tokens, i, ast))
      \<in> measure (\<lambda>(tokens, i, ast). length tokens - i)"
    by simp
qed

declare parse_loop.simps [simp del]

definition parse_tokens :: "token list \<Rightarrow> error + node list" where
  "parse_tokens tokens = parse_loop tokens 0 []"

subsection \<open>Generators\<close>

text \<open>\<^verbatim>\<open>sep.join(lines)\<close>\<close>

fun join :: "string \<Rightarrow> string list \<Rightarrow> string" where
  "join sep [] = []"
| "join sep [x] = x"
| "join sep (x # y # ys) = x @ sep @ join sep (y # ys)"

fun ir_stmt :: "stmt \<Rightarrow> string list" where
  "ir_stmt (Print l r) = [''t1'' @ '' = '' @ l @ '' + '' @ r, ''print '' @ ''t1'']"

fun ir_node :: "node \<Rightarrow> string list" where
  "ir_node (Function n p b) =
     [''func '' @ n @ ''('' @ p @ '')''] @ concat (map ir_stmt b) @ [''endfunc'']"
| "ir_node (Call n a) = [''call '' @ n @ ''('' @ a @ '')'']"

fun ir_loop :: "node list \<Rightarrow> string list \<Rightarrow> string list" where
  "ir_loop [] ir_lines = ir_lines"
| "ir_loop (nd # ast_list) ir_lines = ir_loop ast_list (ir_lines @ ir_node nd)"

definition generate_ir :: "node list \<Rightarrow> string" where
  "generate_ir ast_list = join ''\<newline>'' (ir_loop ast_list [])"

definition preamble :: "string list" where
  "preamble = [''#include <iostream>'', ''#include <string>'', ''using namespace std;'', []]"

fun cpp_stmt :: "stmt \<Rightarrow> string list" where
  "cpp_stmt (Print l r) = [''    cout << '' @ l @ '' + '' @ r @ '' << endl;'']"

definition cpp_function :: "string \<Rightarrow> string \<Rightarrow> stmt list \<Rightarrow> string list" where
  "cpp_function n p b =
     [''void '' @ n @ ''(string '' @ p @ '') {''] @ concat (map cpp_stmt b) @ [''}'']"

text \<open>The loop of \<^verbatim>\<open>generate_cpp\<close>, with \<^verbatim>\<open>cpp_lines\<close> and the flag \<^verbatim>\<open>main_added\<close>.\<close>

fun cpp_loop :: "node list \<Rightarrow> string list \<times> bool \<Rightarrow> string list \<times> bool" where
  "cpp_loop [] st = st"
| "cpp_loop (Function n p b # ast_list) (cpp_lines, main_added) =
     cpp_loop ast_list (cpp_lines @ cpp_function n p b, main_added)"
| "cpp_loop (Call n a # ast_list) (cpp_lines, main_added) =
     cpp_loop ast_list
       ((if \<not> main_added then cpp_lines @ [''\<newline>int main() {''] else cpp_lines)
          @ [''    '' @ n @ ''('' @ a @ '');''],
        True)"

definition generate_cpp :: "node list \<Rightarrow> string" where
  "generate_cpp ast_list =
     (case cpp_loop ast_list (preamble, False) of
        (cpp_lines, main_added) \<Rightarrow>
          join ''\<newline>''
            (if main_added then cpp_lines @ [''    return 0;'', ''}''] else cpp_lines))"

subsection \<open>The translation request\<close>

text \<open>
  \<^verbatim>\<open>translate_code\<close> without the window: the four artifacts, or the exception the
  \<^verbatim>\<open>except\<close> clause receives.
\<close>

definition translate_code :: "string \<Rightarrow> error + (token list \<times> node list \<times> string \<times> string)" where
  "translate_code input_code =
     bind_result (tokenize input_code) (\<lambda>tokens.
     bind_result (parse_tokens tokens) (\<lambda>ast.
       Inr (tokens, ast, generate_ir ast, generate_cpp ast)))"

subsection \<open>The token kinds a statement expects\<close>

text \<open>
  The kinds the parser asks for, in order, in a function header, a print statement and a call,
  and the first of them that the tokens from a position on do not meet, with the message of
  the \<^verbatim>\<open>SyntaxError\<close> for it. The kinds \<^verbatim>\<open>unparsable\<close> are those the parser never asks
  for.
\<close>

definition def_header :: "kind list" where
  "def_header = [DEF, ID, LPAREN, ID, RPAREN, COLON]"

definition print_form :: "kind list" where
  "print_form = [PRINT, LPAREN, STRING, PLUS, ID, RPAREN]"

definition call_form :: "kind list" where
  "call_form = [ID, LPAREN, STRING, RPAREN]"

fun first_failure :: "token list \<Rightarrow> nat \<Rightarrow> kind list \<Rightarrow> syntax_msg option" where
  "first_failure tokens i [] = None"
| "first_failure tokens i (k # ks) =
     (if i < length tokens \<and> fst (tokens ! i) = k then first_failure tokens (Suc i) ks
      else Some (Expected k (if i < length tokens then Some (tokens ! i) else None)))"

definition unparsable :: "kind \<Rightarrow> bool" where
  "unparsable k = (k = NUMBER \<or> k = ASSIGN \<or> k = COMMA)"

subsection \<open>Identifiers and string literals\<close>

text \<open>
  The texts that \<^verbatim>\<open>[A-Za-z_]\w*\<close> matches whole and that are not one of the two keywords,
  and the texts that \<^verbatim>\<open>"[^"]*"\<close> matches whole.
\<close>

definition is_identifier :: "string \<Rightarrow> bool" where
  "is_identifier w =
     (w \<noteq> [] \<and> is_id_start (hd w) \<and> (\<forall>c \<in> set (tl w). is_word c) \<and> w \<noteq> ''def'' \<and> w \<noteq> ''print'')"

definition is_string_literal :: "string \<Rightarrow> bool" where
  "is_string_literal s =
     (2 \<le> length s \<and> hd s = CHR 0x22 \<and> last s = CHR 0x22 \<and> CHR 0x22 \<notin> set (butlast (tl s)))"

subsection \<open>The lines a node contributes to the target text\<close>

text \<open>
  The statements about the order of emission are made against these functions: the lines one
  node adds, given whether the entry point is already open, and the lines a sequence adds.
\<close>

fun is_call :: "node \<Rightarrow> bool" where
  "is_call (Call n a) = True"
| "is_call (Function n p b) = False"

fun node_lines :: "bool \<Rightarrow> node \<Rightarrow> string list" where
  "node_lines main_added (Function n p b) = cpp_function n p b"
| "node_lines main_added (Call n a) =
     (if main_added then [] else [''\<newline>int main() {'']) @ [''    '' @ n @ ''('' @ a @ '');'']"

fun lines_from :: "bool \<Rightarrow> node list \<Rightarrow> string list" where
  "lines_from main_added [] = []"
| "lines_from main_added (nd # nodes) =
     node_lines main_added nd @ lines_from (main_added \<or> is_call nd) nodes"

section \<open>Properties of the lexer\<close>

lemma finditer_Nil: "finditer p [] = []"
  by (simp add: finditer.simps)

lemma tok_regex_None_iff: "tok_regex ps p s = None \<longleftrightarrow> (\<forall>(k, m) \<in> set ps. m p s = None)"
  by (induction ps) (auto split: option.splits)

lemma tok_regex_in_spec:
  "tok_regex ps p s = Some (k, n) \<Longrightarrow> \<exists>m. (k, m) \<in> set ps \<and> m p s = Some n"
  by (induction ps) (auto split: option.splits)

lemma tok_regex_total:
  assumes "s \<noteq> []"
  shows "tok_regex token_spec p s \<noteq> None"
proof (cases "hd s = CHR 0x0A")
  case True
  with assms have "re_char (CHR 0x0A) p s = Some 1"
    by (cases s) (simp_all add: re_char_def)
  moreover have "(NEWLINE, re_char (CHR 0x0A)) \<in> set token_spec"
    by (simp add: token_spec_def)
  ultimately show ?thesis
    unfolding tok_regex_None_iff by force
next
  case False
  with assms have "re_dot p s = Some 1"
    by (cases s) (simp_all add: re_dot_def)
  moreover have "(MISMATCH, re_dot) \<in> set token_spec"
    by (simp add: token_spec_def)
  ultimately show ?thesis
    unfolding tok_regex_None_iff by force
qed

lemma finditer_step:
  assumes "tok_regex token_spec p s = Some (k, n)" and "s \<noteq> []"
  shows "finditer p s = (k, take n s) # finditer (Some (s ! (n - 1))) (drop n s)"
  using assms by (subst finditer.simps) simp

lemma finditer_concat: "concat (map snd (finditer p s)) = s"
proof (induction p s rule: finditer.induct)
  case (1 p s)
  show ?case
  proof (cases "s = []")
    case True
    then show ?thesis by (simp add: finditer_Nil)
  next
    case False
    then obtain k n where kn: "tok_regex token_spec p s = Some (k, n)"
      using tok_regex_total [of s p] by auto
    from "1.IH"(2) [OF False kn refl]
    have "concat (map snd (finditer (Some (s ! (n - 1))) (drop n s))) = drop n s" .
    then show ?thesis
      using False kn by (simp add: finditer_step)
  qed
qed

lemma tokenize_loop_filter:
  "tokenize_loop ms acc = Inr toks \<Longrightarrow> toks = acc @ filter (\<lambda>m. fst m \<noteq> SKIP \<and> fst m \<noteq> NEWLINE) ms"
  by (induction ms acc rule: tokenize_loop.induct) (auto split: if_splits)

lemma spec_kind_pattern:
  assumes "(k, m) \<in> set token_spec"
  shows "(k = SKIP \<longrightarrow> m = re_skip) \<and> (k = NEWLINE \<longrightarrow> m = re_char (CHR 0x0A))
         \<and> (k = MISMATCH \<longrightarrow> m = re_dot)"
  using assms by (auto simp: token_spec_def)

lemma finditer_segments:
  "(k, v) \<in> set (finditer p s) \<Longrightarrow>
     v \<noteq> [] \<and> (k = SKIP \<longrightarrow> (\<forall>c \<in> set v. is_blank c)) \<and> (k = NEWLINE \<longrightarrow> v = [CHR 0x0A])
     \<and> (k = MISMATCH \<longrightarrow> length v = 1)"
proof (induction p s rule: finditer.induct)
  case (1 p s)
  show ?case
  proof (cases "s = []")
    case True
    with "1.prems" show ?thesis by (simp add: finditer_Nil)
  next
    case False
    then obtain k' n where kn: "tok_regex token_spec p s = Some (k', n)"
      using tok_regex_total [of s p] by auto
    from "1.prems" False kn
    consider (here) "k = k'" "v = take n s"
      | (later) "(k, v) \<in> set (finditer (Some (s ! (n - 1))) (drop n s))"
      by (auto simp: finditer_step)
    then show ?thesis
    proof cases
      case here
      from tok_regex_in_spec [OF kn] obtain m where m: "(k', m) \<in> set token_spec" "m p s = Some n"
        by blast
      from tok_regex_bounds [OF kn] have b: "0 < n" "n \<le> length s" by simp_all
      have "v \<noteq> []" using here b False by simp
      moreover have "\<forall>c \<in> set v. is_blank c" if "k = SKIP"
      proof -
        from that here m spec_kind_pattern [OF m(1)] have "re_skip p s = Some n" by simp
        then have "n = length (takeWhile is_blank s)"
          by (auto simp: re_skip_def Let_def split: if_splits)
        then have "v = takeWhile is_blank s"
          using here takeWhile_eq_take [of is_blank s] by simp
        then show ?thesis by (auto dest: set_takeWhileD)
      qed
      moreover have "v = [CHR 0x0A]" if "k = NEWLINE"
      proof -
        from that here m spec_kind_pattern [OF m(1)] have "re_char (CHR 0x0A) p s = Some n" by simp
        then have "n = 1 \<and> hd s = CHR 0x0A"
          by (cases s) (simp_all add: re_char_def split: if_splits)
        with here False show ?thesis by (cases s) simp_all
      qed
      moreover have "length v = 1" if "k = MISMATCH"
      proof -
        from that here m spec_kind_pattern [OF m(1)] have "re_dot p s = Some n" by simp
        then have "n = 1"
          by (cases s) (simp_all add: re_dot_def split: if_splits)
        with here False show ?thesis by (cases s) simp_all
      qed
      ultimately show ?thesis by blast
    next
      case later
      from "1.IH"(2) [OF False kn refl later] show ?thesis .
    qed
  qed
qed

text \<open>
  C6. When \<^verbatim>\<open>tokenize\<close> succeeds, the text is cut into segments, one after the other with
  nothing between them and none empty: their concatenation is the text, the segments that are
  not blank runs or newlines are exactly the tokens returned, in order, and a discarded segment
  holds only spaces and tabs, or is one newline.
\<close>

theorem lexical_coverage:
  assumes "tokenize code = Inr toks"
  shows "\<exists>segs. concat (map snd segs) = code
           \<and> filter (\<lambda>m. fst m \<noteq> SKIP \<and> fst m \<noteq> NEWLINE) segs = toks
           \<and> (\<forall>m \<in> set segs. snd m \<noteq> []
                 \<and> (fst m = SKIP \<longrightarrow> set (snd m) \<subseteq> {CHR '' '', CHR 0x09})
                 \<and> (fst m = NEWLINE \<longrightarrow> snd m = [CHR 0x0A]))"
proof (intro exI conjI ballI)
  show "concat (map snd (finditer None code)) = code" by (rule finditer_concat)
  from assms show "filter (\<lambda>m. fst m \<noteq> SKIP \<and> fst m \<noteq> NEWLINE) (finditer None code) = toks"
    by (auto simp: tokenize_def dest: tokenize_loop_filter)
next
  fix m assume "m \<in> set (finditer None code)"
  then have "(fst m, snd m) \<in> set (finditer None code)" by simp
  from finditer_segments [OF this]
  show "snd m \<noteq> []" and "fst m = SKIP \<longrightarrow> set (snd m) \<subseteq> {CHR '' '', CHR 0x09}"
    and "fst m = NEWLINE \<longrightarrow> snd m = [CHR 0x0A]"
    by (auto simp: is_blank_def)
qed


theorem lexical_coverage_witness:
  "\<exists>segs. concat (map snd segs) = ''f(\"a b\")\<newline>  x = 1''
      \<and> filter (\<lambda>m. fst m \<noteq> SKIP \<and> fst m \<noteq> NEWLINE) segs =
          [(ID, ''f''), (LPAREN, ''(''), (STRING, ''\"a b\"''), (RPAREN, '')''), (ID, ''x''),
           (ASSIGN, ''=''), (NUMBER, ''1'')]"
proof -
  have h: "tokenize ''f(\"a b\")\<newline>  x = 1'' =
     Inr [(ID, ''f''), (LPAREN, ''(''), (STRING, ''\"a b\"''), (RPAREN, '')''), (ID, ''x''),
          (ASSIGN, ''=''), (NUMBER, ''1'')]"
    by code_simp
  from lexical_coverage [OF h] show ?thesis by blast
qed

lemma tokenize_loop_mismatch:
  assumes "(MISMATCH, v) \<in> set ms"
  shows "\<exists>pre c post. ms = pre @ (MISMATCH, c) # post \<and> (\<forall>m \<in> set pre. fst m \<noteq> MISMATCH)
           \<and> tokenize_loop ms acc = Inl (RuntimeError (''Unexpected character: '' @ c))"
  using assms
proof (induction ms arbitrary: acc)
  case Nil
  then show ?case by simp
next
  case (Cons a ms)
  obtain k val where a: "a = (k, val)" by (cases a)
  show ?case
  proof (cases "k = MISMATCH")
    case True
    then have "a # ms = [] @ (MISMATCH, val) # ms
        \<and> (\<forall>m \<in> set []. fst m \<noteq> MISMATCH)
        \<and> tokenize_loop (a # ms) acc = Inl (RuntimeError (''Unexpected character: '' @ val))"
      using a by simp
    then show ?thesis by blast
  next
    case False
    with Cons.prems a have "(MISMATCH, v) \<in> set ms" by auto
    from Cons.IH [OF this]
    obtain pre c post where
      ms: "ms = pre @ (MISMATCH, c) # post" and pre: "\<forall>m \<in> set pre. fst m \<noteq> MISMATCH"
      and r: "\<And>acc. \<exists>pre' c' post'. ms = pre' @ (MISMATCH, c') # post'
            \<and> (\<forall>m \<in> set pre'. fst m \<noteq> MISMATCH)
            \<and> tokenize_loop ms acc = Inl (RuntimeError (''Unexpected character: '' @ c'))"
      by blast
    have same: "tokenize_loop ms acc' = Inl (RuntimeError (''Unexpected character: '' @ c))" for acc'
    proof -
      from r [of acc'] obtain pre' c' post' where
        ms': "ms = pre' @ (MISMATCH, c') # post'" and pre': "\<forall>m \<in> set pre'. fst m \<noteq> MISMATCH"
        and t: "tokenize_loop ms acc' = Inl (RuntimeError (''Unexpected character: '' @ c'))"
        by blast
      have "pre' = pre \<and> c' = c"
        using ms ms' pre pre'
        by (auto simp: append_eq_append_conv2 append_eq_Cons_conv Cons_eq_append_conv)
      with t show ?thesis by simp
    qed
    have "a # ms = (a # pre) @ (MISMATCH, c) # post
        \<and> (\<forall>m \<in> set (a # pre). fst m \<noteq> MISMATCH)
        \<and> tokenize_loop (a # ms) acc = Inl (RuntimeError (''Unexpected character: '' @ c))"
      using ms pre a False same by simp
    then show ?thesis by blast
  qed
qed

text \<open>
  C3. If some scan position of the text is matched by no pattern but the catch-all, \<^verbatim>\<open>tokenize\<close>
  raises: the error names the character at the first such position, and the request ends with
  that error, so the tokens collected before it reach no later stage.
\<close>

theorem lexical_failure:
  assumes "(MISMATCH, v) \<in> set (finditer None code)"
  shows "\<exists>pre c post. finditer None code = pre @ (MISMATCH, [c]) # post
           \<and> (\<forall>m \<in> set pre. fst m \<noteq> MISMATCH)
           \<and> code = concat (map snd pre) @ c # concat (map snd post)
           \<and> tokenize code = Inl (RuntimeError (''Unexpected character: '' @ [c]))
           \<and> translate_code code = Inl (RuntimeError (''Unexpected character: '' @ [c]))"
proof -
  from tokenize_loop_mismatch [OF assms, of "[]"]
  obtain pre cs post where
    ms: "finditer None code = pre @ (MISMATCH, cs) # post"
    and pre: "\<forall>m \<in> set pre. fst m \<noteq> MISMATCH"
    and t: "tokenize code = Inl (RuntimeError (''Unexpected character: '' @ cs))"
    unfolding tokenize_def by blast
  from ms have "(MISMATCH, cs) \<in> set (finditer None code)" by simp
  from finditer_segments [OF this] have "length cs = 1" by simp
  then obtain c where cs: "cs = [c]" by (cases cs) simp_all
  have "concat (map snd (finditer None code)) = code" by (rule finditer_concat)
  with ms cs have "code = concat (map snd pre) @ c # concat (map snd post)" by simp
  moreover from t cs
  have "translate_code code = Inl (RuntimeError (''Unexpected character: '' @ [c]))"
    by (simp add: translate_code_def bind_result_def)
  ultimately show ?thesis using ms pre t cs by blast
qed

theorem lexical_failure_witness:
  "\<exists>pre c post.
      finditer None ''def f(x):\<newline>    print(\"a\" + x) $'' = pre @ (MISMATCH, [c]) # post
      \<and> ''def f(x):\<newline>    print(\"a\" + x) $'' = concat (map snd pre) @ c # concat (map snd post)
      \<and> translate_code ''def f(x):\<newline>    print(\"a\" + x) $''
          = Inl (RuntimeError (''Unexpected character: '' @ [c]))"
proof -
  have h: "(MISMATCH, ''$'') \<in> set (finditer None ''def f(x):\<newline>    print(\"a\" + x) $'')"
    by code_simp
  from lexical_failure [OF h] show ?thesis by blast
qed

text \<open>Scenario 3: the stray character is the dollar sign, and nothing else is produced.\<close>

lemma stray_dollar:
  "translate_code ''def f(x):\<newline>    print(\"a\" + x) $'' = Inl (RuntimeError ''Unexpected character: $'')"
  by code_simp

text \<open>The opening quote of a string literal that is never closed is such a character.\<close>

lemma unterminated_string_literal:
  "tokenize ''print(\"abc'' = Inl (RuntimeError ''Unexpected character: \"'')"
  by code_simp

text \<open>
  Which characters these are: at a scan position, a character that is no word character,
  no blank, no newline and none of the quote and the six punctuation marks gets the
  catch-all; so does a quote with no quote after it.
\<close>

lemma regex_stray:
  assumes "\<not> is_word c" and "c \<notin> set ''\"=():,+ ''" and "c \<noteq> CHR 0x0A" and "c \<noteq> CHR 0x09"
  shows "tok_regex token_spec p (c # r) = Some (MISMATCH, 1)"
proof -
  from assms(1) have w: "\<not> is_digit c" "\<not> is_id_start c" by (simp_all add: is_word_def Let_def)
  have kw: "\<forall>x \<in> set ''def''. is_word x" "\<forall>x \<in> set ''print''. is_word x"
    by (simp_all add: is_word_def is_id_start_def)
  from assms(1) kw have k: "re_keyword ''def'' p (c # r) = None" "re_keyword ''print'' p (c # r) = None"
    by (auto simp: re_keyword_def)
  from w assms(2-) k show ?thesis
    by (simp add: token_spec_def re_string_def re_number_def re_char_def re_id_def re_skip_def
        re_dot_def is_blank_def)
qed

lemma regex_open_quote:
  assumes "CHR 0x22 \<notin> set r"
  shows "tok_regex token_spec p (CHR 0x22 # r) = Some (MISMATCH, 1)"
proof -
  from assms have "takeWhile (\<lambda>x. x \<noteq> CHR 0x22) r = r"
    by (auto simp: takeWhile_eq_all_conv)
  then have "length (takeWhile (\<lambda>x. x \<noteq> CHR 0x22) r) = length r"
    by (rule arg_cong)
  then have "re_string p (CHR 0x22 # r) = None"
    by (simp add: re_string_def Let_def)
  then show ?thesis
    by (simp add: token_spec_def re_keyword_def re_number_def re_char_def re_id_def
        re_skip_def re_dot_def is_blank_def is_digit_def is_id_start_def)
qed

lemma regex_space: "tok_regex token_spec p (CHR '' '' # r) = Some (SKIP, Suc (length (takeWhile is_blank r)))"
  by (simp add: token_spec_def re_keyword_def re_string_def re_number_def re_char_def re_id_def
      re_skip_def is_blank_def is_digit_def is_id_start_def)

lemma regex_tab: "tok_regex token_spec p (CHR 0x09 # r) = Some (SKIP, Suc (length (takeWhile is_blank r)))"
  by (simp add: token_spec_def re_keyword_def re_string_def re_number_def re_char_def re_id_def
      re_skip_def is_blank_def is_digit_def is_id_start_def)

lemma regex_newline: "tok_regex token_spec p (CHR 0x0A # r) = Some (NEWLINE, 1)"
  by (simp add: token_spec_def re_keyword_def re_string_def re_number_def re_char_def re_id_def
      re_skip_def is_blank_def is_digit_def is_id_start_def)

lemma blank_regex:
  assumes "tok_regex token_spec p (c # r) = Some (k, n)"
    and "c = CHR '' '' \<or> c = CHR 0x09 \<or> c = CHR 0x0A"
  shows "k = SKIP \<or> k = NEWLINE"
  using assms regex_space [of p r] regex_tab [of p r] regex_newline [of p r] by auto

lemma blank_scan:
  assumes "\<forall>c \<in> set s. c = CHR '' '' \<or> c = CHR 0x09 \<or> c = CHR 0x0A"
  shows "\<forall>m \<in> set (finditer p s). fst m = SKIP \<or> fst m = NEWLINE"
  using assms
proof (induction p s rule: finditer.induct)
  case (1 p s)
  show ?case
  proof (cases s)
    case Nil
    then show ?thesis by (simp add: finditer_Nil)
  next
    case (Cons c r)
    then have ne: "s \<noteq> []" by simp
    then obtain k n where kn: "tok_regex token_spec p s = Some (k, n)"
      using tok_regex_total [of s p] by auto
    from kn Cons "1.prems" have k: "k = SKIP \<or> k = NEWLINE"
      using blank_regex [of p c r k n] by simp
    have "\<forall>c \<in> set (drop n s). c = CHR '' '' \<or> c = CHR 0x09 \<or> c = CHR 0x0A"
      using "1.prems" by (meson in_set_dropD)
    from "1.IH"(2) [OF ne kn refl this] k show ?thesis
      using ne kn by (simp add: finditer_step)
  qed
qed

lemma tokenize_loop_skips:
  "\<forall>m \<in> set ms. fst m = SKIP \<or> fst m = NEWLINE \<Longrightarrow> tokenize_loop ms acc = Inr acc"
  by (induction ms acc rule: tokenize_loop.induct) auto

text \<open>
  C9. On a text that is empty or made of spaces, tabs and newlines only (what the lexer
  discards), the request succeeds with no token, no node, the empty IR text and a target text
  that is the preamble alone.
\<close>

theorem blank_input:
  assumes "\<forall>c \<in> set code. c = CHR '' '' \<or> c = CHR 0x09 \<or> c = CHR 0x0A"
  shows "tokenize code = Inr [] \<and> parse_tokens [] = Inr [] \<and> generate_ir [] = []
         \<and> generate_cpp [] = join ''\<newline>'' preamble
         \<and> translate_code code =
             Inr ([], [], [], ''#include <iostream>\<newline>#include <string>\<newline>using namespace std;\<newline>'')"
proof -
  have t: "tokenize code = Inr []"
    unfolding tokenize_def by (rule tokenize_loop_skips) (rule blank_scan [OF assms])
  have p: "parse_tokens [] = Inr []"
    by (simp add: parse_tokens_def parse_loop.simps)
  have i: "generate_ir [] = []" by (simp add: generate_ir_def)
  have c: "generate_cpp [] = join ''\<newline>'' preamble" by (simp add: generate_cpp_def)
  have j: "join ''\<newline>'' preamble = ''#include <iostream>\<newline>#include <string>\<newline>using namespace std;\<newline>''"
    by (simp add: preamble_def)
  from t p i c j show ?thesis
    by (simp add: translate_code_def bind_result_def)
qed

theorem blank_input_witness:
  "translate_code [CHR '' '', CHR 0x0A, CHR 0x09, CHR 0x0A] =
       Inr ([], [], [], ''#include <iostream>\<newline>#include <string>\<newline>using namespace std;\<newline>'')
   \<and> translate_code [] =
       Inr ([], [], [], ''#include <iostream>\<newline>#include <string>\<newline>using namespace std;\<newline>'')"
  using blank_input [of "[CHR '' '', CHR 0x0A, CHR 0x09, CHR 0x0A]"] blank_input [of "[]"]
  by simp

subsection \<open>The reference input\<close>

text \<open>
  C1. The reference input goes through the four stages: the tokens (they begin with
  \<^verbatim>\<open>def greet ( name ) : print\<close>), the two nodes, the IR text and the target text with
  the function \<^verbatim>\<open>greet\<close> of one string parameter and the entry point calling it.
\<close>

theorem reference_scenario:
  "translate_code ''def greet(name):\<newline>    print(\"Hello \" + name)\<newline>greet(\"World\")'' =
     Inr ([(DEF, ''def''), (ID, ''greet''), (LPAREN, ''(''), (ID, ''name''), (RPAREN, '')''),
           (COLON, '':''), (PRINT, ''print''), (LPAREN, ''(''), (STRING, ''\"Hello \"''),
           (PLUS, ''+''), (ID, ''name''), (RPAREN, '')''), (ID, ''greet''), (LPAREN, ''(''),
           (STRING, ''\"World\"''), (RPAREN, '')'')],
          [Function ''greet'' ''name'' [Print ''\"Hello \"'' ''name''], Call ''greet'' ''\"World\"''],
          ''func greet(name)\<newline>t1 = \"Hello \" + name\<newline>print t1\<newline>endfunc\<newline>call greet(\"World\")'',
          ''#include <iostream>\<newline>#include <string>\<newline>using namespace std;\<newline>\<newline>void greet(string name) {\<newline>    cout << \"Hello \" + name << endl;\<newline>}\<newline>\<newline>int main() {\<newline>    greet(\"World\");\<newline>    return 0;\<newline>}'')"
  by code_simp

section \<open>Properties of the parser\<close>

lemma match_Inr_iff:
  "match tokens i k = Inr (v, j) \<longleftrightarrow>
     i < length tokens \<and> fst (tokens ! i) = k \<and> v = snd (tokens ! i) \<and> j = Suc i"
  by (auto simp: match_def)

lemma match_Inl_iff:
  "match tokens i k = Inl e \<longleftrightarrow>
     \<not> (i < length tokens \<and> fst (tokens ! i) = k)
     \<and> e = SyntaxError (Expected k (if i < length tokens then Some (tokens ! i) else None))"
  by (auto simp: match_def)

lemma bind_match_ok:
  "i < length tokens \<Longrightarrow> fst (tokens ! i) = k \<Longrightarrow>
     bind_result (match tokens i k) f = f (snd (tokens ! i), Suc i)"
  by (simp add: bind_result_def match_def)

lemma bind_match_fail:
  "\<not> (i < length tokens \<and> fst (tokens ! i) = k) \<Longrightarrow>
     bind_result (match tokens i k) f =
       Inl (SyntaxError (Expected k (if i < length tokens then Some (tokens ! i) else None)))"
  by (auto simp: bind_result_def match_def)

lemma first_failure_None:
  "first_failure tokens i (k # ks) = None \<longleftrightarrow>
     i < length tokens \<and> fst (tokens ! i) = k \<and> first_failure tokens (Suc i) ks = None"
  by auto

lemma first_failure_Some:
  "first_failure tokens i (k # ks) = Some m \<longleftrightarrow>
     (i < length tokens \<and> fst (tokens ! i) = k \<and> first_failure tokens (Suc i) ks = Some m)
     \<or> (\<not> (i < length tokens \<and> fst (tokens ! i) = k)
        \<and> m = Expected k (if i < length tokens then Some (tokens ! i) else None))"
  by (cases "i < length tokens \<and> fst (tokens ! i) = k") auto

lemma parse_function_header_failure:
  assumes "first_failure tokens i def_header = Some m"
  shows "parse_function tokens i = Inl (SyntaxError m)"
  using assms unfolding def_header_def first_failure_Some first_failure.simps(1)
  by (elim disjE conjE) (simp_all add: parse_function_def bind_match_ok bind_match_fail)

lemma header_matches:
  assumes "first_failure tokens i def_header = None"
  shows "parse_function tokens i =
      (if \<not> i + 6 < length tokens then Inl IndexError
       else if fst (tokens ! (i + 6)) = PRINT then
         bind_result (match tokens (i + 6) PRINT) (\<lambda>(_, j).
         bind_result (match tokens j LPAREN) (\<lambda>(_, j).
         bind_result (match tokens j STRING) (\<lambda>(left, j).
         bind_result (match tokens j PLUS) (\<lambda>(_, j).
         bind_result (match tokens j ID) (\<lambda>(right, j).
         bind_result (match tokens j RPAREN) (\<lambda>(_, j).
           Inr (Function (snd (tokens ! (i + 1))) (snd (tokens ! (i + 3))) [Print left right], j)))))))
       else Inr (Function (snd (tokens ! (i + 1))) (snd (tokens ! (i + 3))) [], i + 6))"
  using assms unfolding def_header_def first_failure_None first_failure.simps(1)
  by (elim conjE) (simp add: parse_function_def bind_match_ok eval_nat_numeral)

lemma parse_function_print_failure:
  assumes "first_failure tokens i def_header = None"
    and "i + 6 < length tokens" and "fst (tokens ! (i + 6)) = PRINT"
    and "first_failure tokens (i + 6) print_form = Some m"
  shows "parse_function tokens i = Inl (SyntaxError m)"
  using assms(4) unfolding header_matches [OF assms(1)] print_form_def first_failure_Some
    first_failure.simps(1)
  using assms(2,3)
  by (elim disjE conjE) (simp_all add: bind_match_ok bind_match_fail eval_nat_numeral)

lemma parse_call_failure:
  assumes "first_failure tokens i call_form = Some m"
  shows "parse_call tokens i = Inl (SyntaxError m)"
  using assms unfolding call_form_def first_failure_Some first_failure.simps(1)
  by (elim disjE conjE) (simp_all add: parse_call_def bind_match_ok bind_match_fail)

lemma parse_function_empty_body:
  assumes "first_failure tokens i def_header = None"
    and "i + 6 < length tokens" and "fst (tokens ! (i + 6)) \<noteq> PRINT"
  shows "parse_function tokens i =
           Inr (Function (snd (tokens ! (i + 1))) (snd (tokens ! (i + 3))) [], i + 6)"
  using assms(2,3) by (simp add: header_matches [OF assms(1)])

lemma parse_function_colon_last:
  assumes "first_failure tokens i def_header = None" and "length tokens = i + 6"
  shows "parse_function tokens i = Inl IndexError"
  using assms(2) by (simp add: header_matches [OF assms(1)])


lemma print_matches:
  assumes "first_failure tokens i def_header = None"
    and "i + 6 < length tokens" and "fst (tokens ! (i + 6)) = PRINT"
    and "first_failure tokens (i + 6) print_form = None"
  shows "parse_function tokens i =
           Inr (Function (snd (tokens ! (i + 1))) (snd (tokens ! (i + 3)))
                  [Print (snd (tokens ! (i + 8))) (snd (tokens ! (i + 10)))], i + 12)"
  using assms(4) unfolding header_matches [OF assms(1)] print_form_def first_failure_None
    first_failure.simps(1)
  using assms(2,3)
  by (elim conjE) (simp add: bind_match_ok eval_nat_numeral)

lemma call_matches:
  assumes "first_failure tokens i call_form = None"
  shows "parse_call tokens i = Inr (Call (snd (tokens ! i)) (snd (tokens ! (i + 2))), i + 4)"
  using assms unfolding call_form_def first_failure_None first_failure.simps(1)
  by (elim conjE) (simp add: parse_call_def bind_match_ok eval_nat_numeral)

lemma parse_loop_function:
  assumes "i < length tokens" and "fst (tokens ! i) = DEF"
  shows "parse_loop tokens i ast =
           (case parse_function tokens i of
              Inl e \<Rightarrow> Inl e
            | Inr (nd, j) \<Rightarrow> parse_loop tokens j (ast @ [nd]))"
  using assms by (subst parse_loop.simps) simp

lemma parse_loop_call:
  assumes "i + 1 < length tokens" and "fst (tokens ! i) = ID" and "fst (tokens ! (i + 1)) = LPAREN"
  shows "parse_loop tokens i ast =
           (case parse_call tokens i of
              Inl e \<Rightarrow> Inl e
            | Inr (nd, j) \<Rightarrow> parse_loop tokens j (ast @ [nd]))"
  using assms by (subst parse_loop.simps) simp

lemma parse_loop_unsupported:
  assumes "i < length tokens" and "fst (tokens ! i) \<noteq> DEF"
    and "\<not> (fst (tokens ! i) = ID \<and> i + 1 < length tokens \<and> fst (tokens ! (i + 1)) = LPAREN)"
  shows "parse_loop tokens i ast = Inl (SyntaxError Unsupported)"
  using assms by (subst parse_loop.simps) auto

lemma parse_loop_end: "\<not> i < length tokens \<Longrightarrow> parse_loop tokens i ast = Inr ast"
  by (subst parse_loop.simps) simp

lemma matched_below:
  assumes "first_failure tokens i ks = None" and "\<forall>k \<in> set ks. \<not> unparsable k"
    and "i \<le> b" and "unparsable (fst (tokens ! b))"
  shows "i + length ks \<le> b"
  using assms
proof (induction ks arbitrary: i)
  case Nil
  then show ?case by simp
next
  case (Cons k ks)
  from Cons.prems(1) [unfolded first_failure_None]
  have ok: "fst (tokens ! i) = k" and rest: "first_failure tokens (Suc i) ks = None"
    by blast+
  from ok Cons.prems(2,4) have "i \<noteq> b" by auto
  with Cons.prems(3) have "Suc i \<le> b" by simp
  from Cons.IH [OF rest _ this Cons.prems(4)] Cons.prems(2) show ?case by simp
qed

lemma forms_parsable:
  "\<forall>k \<in> set def_header. \<not> unparsable k" "\<forall>k \<in> set print_form. \<not> unparsable k"
  "\<forall>k \<in> set call_form. \<not> unparsable k"
  by (simp_all add: def_header_def print_form_def call_form_def unparsable_def)

lemma parse_function_unparsable:
  assumes "i \<le> b" and "b < length tokens" and "unparsable (fst (tokens ! b))"
  shows "(\<exists>m. parse_function tokens i = Inl (SyntaxError m))
         \<or> (\<exists>nd j. parse_function tokens i = Inr (nd, j) \<and> j \<le> b)"
proof (cases "first_failure tokens i def_header")
  case (Some m)
  then show ?thesis by (simp add: parse_function_header_failure)
next
  case None
  from matched_below [OF None forms_parsable(1) assms(1,3)] have b6: "i + 6 \<le> b"
    by (simp add: def_header_def)
  with assms(2) have l6: "i + 6 < length tokens" by simp
  show ?thesis
  proof (cases "fst (tokens ! (i + 6)) = PRINT")
    case False
    with parse_function_empty_body [OF None l6] b6 show ?thesis by simp
  next
    case True
    show ?thesis
    proof (cases "first_failure tokens (i + 6) print_form")
      case (Some m)
      with parse_function_print_failure [OF None l6 True] show ?thesis by simp
    next
      case none: None
      from matched_below [OF none forms_parsable(2) b6 assms(3)] have "i + 12 \<le> b"
        by (simp add: print_form_def)
      with print_matches [OF None l6 True none] show ?thesis by simp
    qed
  qed
qed

lemma parse_call_unparsable:
  assumes "i \<le> b" and "unparsable (fst (tokens ! b))"
  shows "(\<exists>m. parse_call tokens i = Inl (SyntaxError m))
         \<or> (\<exists>nd j. parse_call tokens i = Inr (nd, j) \<and> j \<le> b)"
proof (cases "first_failure tokens i call_form")
  case (Some m)
  then show ?thesis by (simp add: parse_call_failure)
next
  case None
  from matched_below [OF None forms_parsable(3) assms] have "i + 4 \<le> b"
    by (simp add: call_form_def)
  with call_matches [OF None] show ?thesis by simp
qed

lemma parse_loop_unparsable:
  assumes "i \<le> b" and "b < length tokens" and "unparsable (fst (tokens ! b))"
  shows "\<exists>m. parse_loop tokens i ast = Inl (SyntaxError m)"
  using assms
proof (induction tokens i ast rule: parse_loop.induct)
  case (1 tokens i ast)
  from "1.prems" have lt: "i < length tokens" by simp
  show ?case
  proof (cases "fst (tokens ! i) = DEF")
    case True
    note loop = parse_loop_function [OF lt True, of ast]
    from parse_function_unparsable [OF "1.prems"] show ?thesis
    proof (elim disjE exE conjE)
      fix m assume "parse_function tokens i = Inl (SyntaxError m)"
      with loop show ?thesis by simp
    next
      fix nd j assume r: "parse_function tokens i = Inr (nd, j)" and j: "j \<le> b"
      from "1.IH"(1) [OF lt True r refl j "1.prems"(2,3)]
      show ?thesis using loop r by simp
    qed
  next
    case False
    show ?thesis
    proof (cases "fst (tokens ! i) = ID \<and> i + 1 < length tokens \<and> fst (tokens ! (i + 1)) = LPAREN")
      case True
      then have loop: "parse_loop tokens i ast =
           (case parse_call tokens i of
              Inl e \<Rightarrow> Inl e
            | Inr (nd, j) \<Rightarrow> parse_loop tokens j (ast @ [nd]))"
        by (simp add: parse_loop_call)
      from parse_call_unparsable [OF "1.prems"(1,3)] show ?thesis
      proof (elim disjE exE conjE)
        fix m assume "parse_call tokens i = Inl (SyntaxError m)"
        with loop show ?thesis by simp
      next
        fix nd j assume r: "parse_call tokens i = Inr (nd, j)" and j: "j \<le> b"
        from "1.IH"(2) [OF lt False True r refl j "1.prems"(2,3)]
        show ?thesis using loop r by simp
      qed
    next
      case no: False
      from parse_loop_unsupported [OF lt False no] show ?thesis by simp
    qed
  qed
qed

text \<open>
  C10. The lexer produces tokens of the kinds \<^verbatim>\<open>NUMBER\<close>, \<^verbatim>\<open>ASSIGN\<close> and \<^verbatim>\<open>COMMA\<close>, and
  no token of these kinds is ever consumed: a token sequence that holds one makes
  \<^verbatim>\<open>parse_tokens\<close> raise a \<^verbatim>\<open>SyntaxError\<close>, so no node sequence is returned.
\<close>

theorem unparsable_kinds:
  "tokenize ''7 = ,'' = Inr [(NUMBER, ''7''), (ASSIGN, ''=''), (COMMA, '','')]
   \<and> ((\<exists>t \<in> set tokens. fst t = NUMBER \<or> fst t = ASSIGN \<or> fst t = COMMA)
        \<longrightarrow> (\<exists>m. parse_tokens tokens = Inl (SyntaxError m)))"
proof (intro conjI impI)
  show "tokenize ''7 = ,'' = Inr [(NUMBER, ''7''), (ASSIGN, ''=''), (COMMA, '','')]"
    by code_simp
next
  assume "\<exists>t \<in> set tokens. fst t = NUMBER \<or> fst t = ASSIGN \<or> fst t = COMMA"
  then obtain b where "b < length tokens" and "unparsable (fst (tokens ! b))"
    by (auto simp: in_set_conv_nth unparsable_def)
  from parse_loop_unparsable [OF _ this, of 0 "[]"]
  show "\<exists>m. parse_tokens tokens = Inl (SyntaxError m)"
    by (simp add: parse_tokens_def)
qed

theorem unparsable_kinds_witness:
  "\<exists>m. parse_tokens [(ID, ''f''), (LPAREN, ''(''), (STRING, ''\"a\"''), (RPAREN, '')''),
                     (ID, ''x''), (ASSIGN, ''=''), (NUMBER, ''1'')] = Inl (SyntaxError m)"
  using unparsable_kinds [of "[(ID, ''f''), (LPAREN, ''(''), (STRING, ''\"a\"''), (RPAREN, '')''),
                     (ID, ''x''), (ASSIGN, ''=''), (NUMBER, ''1'')]"]
  by simp


lemma header_starts:
  assumes "first_failure tokens i def_header = None"
  shows "i < length tokens" and "fst (tokens ! i) = DEF"
  using assms unfolding def_header_def first_failure_None by blast+

text \<open>
  C5. The header without its colon, \<^verbatim>\<open>def f(x) print("a"+x)\<close>, raises the
  \<^verbatim>\<open>SyntaxError\<close> that expected \<^verbatim>\<open>COLON\<close> and found the token \<^verbatim>\<open>print\<close>. In general
  \<^verbatim>\<open>match\<close> returns the text of the current token and advances when its kind is the expected
  one, and otherwise raises with the expected kind and the current token, or the end-of-input
  marker; and the first kind that fails in a function header, a print statement or a call is
  the error of the parser.
\<close>

theorem expected_kind_or_fail:
  "translate_code ''def f(x) print(\"a\"+x)'' = Inl (SyntaxError (Expected COLON (Some (PRINT, ''print''))))
   \<and> (i < length tokens \<and> fst (tokens ! i) = k \<longrightarrow>
        match tokens i k = Inr (snd (tokens ! i), i + 1))
   \<and> (\<not> (i < length tokens \<and> fst (tokens ! i) = k) \<longrightarrow>
        match tokens i k =
          Inl (SyntaxError (Expected k (if i < length tokens then Some (tokens ! i) else None))))
   \<and> (i < length tokens \<and> fst (tokens ! i) = DEF \<and> first_failure tokens i def_header = Some m \<longrightarrow>
        parse_loop tokens i ast = Inl (SyntaxError m))
   \<and> (first_failure tokens i def_header = None \<and> i + 6 < length tokens
        \<and> fst (tokens ! (i + 6)) = PRINT \<and> first_failure tokens (i + 6) print_form = Some m \<longrightarrow>
        parse_loop tokens i ast = Inl (SyntaxError m))
   \<and> (i + 1 < length tokens \<and> fst (tokens ! i) = ID \<and> fst (tokens ! (i + 1)) = LPAREN
        \<and> first_failure tokens i call_form = Some m \<longrightarrow>
        parse_loop tokens i ast = Inl (SyntaxError m))"
proof (intro conjI impI)
  show "translate_code ''def f(x) print(\"a\"+x)'' = Inl (SyntaxError (Expected COLON (Some (PRINT, ''print''))))"
    by code_simp
next
  assume "i < length tokens \<and> fst (tokens ! i) = k"
  then show "match tokens i k = Inr (snd (tokens ! i), i + 1)" by (simp add: match_def)
next
  assume "\<not> (i < length tokens \<and> fst (tokens ! i) = k)"
  then show "match tokens i k =
      Inl (SyntaxError (Expected k (if i < length tokens then Some (tokens ! i) else None)))"
    by (auto simp: match_def)
next
  assume "i < length tokens \<and> fst (tokens ! i) = DEF \<and> first_failure tokens i def_header = Some m"
  then show "parse_loop tokens i ast = Inl (SyntaxError m)"
    by (simp add: parse_loop_function parse_function_header_failure)
next
  assume a: "first_failure tokens i def_header = None \<and> i + 6 < length tokens
        \<and> fst (tokens ! (i + 6)) = PRINT \<and> first_failure tokens (i + 6) print_form = Some m"
  then have "i < length tokens" and "fst (tokens ! i) = DEF"
    by (simp_all add: header_starts)
  with a show "parse_loop tokens i ast = Inl (SyntaxError m)"
    by (simp add: parse_loop_function parse_function_print_failure)
next
  assume "i + 1 < length tokens \<and> fst (tokens ! i) = ID \<and> fst (tokens ! (i + 1)) = LPAREN
        \<and> first_failure tokens i call_form = Some m"
  then show "parse_loop tokens i ast = Inl (SyntaxError m)"
    by (simp add: parse_loop_call parse_call_failure)
qed

theorem expected_kind_or_fail_witness:
  "match [(DEF, ''def''), (ID, ''f'')] 1 ID = Inr (''f'', 2)
   \<and> match [(DEF, ''def''), (ID, ''f'')] 2 LPAREN = Inl (SyntaxError (Expected LPAREN None))
   \<and> parse_loop [(DEF, ''def''), (ID, ''f''), (LPAREN, ''(''), (ID, ''x''), (RPAREN, '')''),
                 (PRINT, ''print'')] 0 []
       = Inl (SyntaxError (Expected COLON (Some (PRINT, ''print''))))
   \<and> parse_loop [(DEF, ''def''), (ID, ''f''), (LPAREN, ''(''), (ID, ''x''), (RPAREN, '')''),
                 (COLON, '':''), (PRINT, ''print''), (LPAREN, ''(''), (ID, ''x'')] 0 []
       = Inl (SyntaxError (Expected STRING (Some (ID, ''x''))))
   \<and> parse_loop [(ID, ''f''), (LPAREN, ''(''), (STRING, ''\"a\"'')] 0 []
       = Inl (SyntaxError (Expected RPAREN None))"
  using
    expected_kind_or_fail [of 1 "[(DEF, ''def''), (ID, ''f'')]" ID]
    expected_kind_or_fail [of 2 "[(DEF, ''def''), (ID, ''f'')]" LPAREN]
    expected_kind_or_fail [of 0 "[(DEF, ''def''), (ID, ''f''), (LPAREN, ''(''), (ID, ''x''),
                 (RPAREN, '')''), (PRINT, ''print'')]" _ "Expected COLON (Some (PRINT, ''print''))" "[]"]
    expected_kind_or_fail [of 0 "[(DEF, ''def''), (ID, ''f''), (LPAREN, ''(''), (ID, ''x''),
                 (RPAREN, '')''), (COLON, '':''), (PRINT, ''print''), (LPAREN, ''(''), (ID, ''x'')]" _
                 "Expected STRING (Some (ID, ''x''))" "[]"]
    expected_kind_or_fail [of 0 "[(ID, ''f''), (LPAREN, ''(''), (STRING, ''\"a\"'')]" _
                 "Expected RPAREN None" "[]"]
  by (simp add: def_header_def print_form_def call_form_def eval_nat_numeral)

text \<open>
  C2. A function definition whose colon is the last token: the test for the \<^verbatim>\<open>print\<close>
  keyword reads the token after the colon, there is none, and the read raises
  \<^verbatim>\<open>IndexError\<close>; no node with an empty body is produced.
\<close>

theorem colon_last_raises:
  "tokenize ''def f(x):'' =
     Inr [(DEF, ''def''), (ID, ''f''), (LPAREN, ''(''), (ID, ''x''), (RPAREN, '')''), (COLON, '':'')]
   \<and> parse_tokens [(DEF, ''def''), (ID, ''f''), (LPAREN, ''(''), (ID, ''x''), (RPAREN, '')''),
                   (COLON, '':'')] = Inl IndexError
   \<and> translate_code ''def f(x):'' = Inl IndexError"
  by code_simp

text \<open>
  The same for any header that ends the token sequence; a header followed by a token that is
  not \<^verbatim>\<open>print\<close> gives the node with the empty body, whose IR is the two lines.
\<close>

lemma colon_last:
  assumes "first_failure tokens i def_header = None" and "length tokens = i + 6"
  shows "parse_loop tokens i ast = Inl IndexError"
proof -
  from assms(1) have "i < length tokens" and "fst (tokens ! i) = DEF"
    by (simp_all add: header_starts)
  then show ?thesis
    by (simp add: parse_loop_function parse_function_colon_last [OF assms])
qed

lemma empty_body_before_statement:
  assumes "first_failure tokens i def_header = None"
    and "i + 6 < length tokens" and "fst (tokens ! (i + 6)) \<noteq> PRINT"
  shows "parse_loop tokens i ast =
           parse_loop tokens (i + 6)
             (ast @ [Function (snd (tokens ! (i + 1))) (snd (tokens ! (i + 3))) []])"
proof -
  from assms(1) have "i < length tokens" and "fst (tokens ! i) = DEF"
    by (simp_all add: header_starts)
  then show ?thesis
    by (simp add: parse_loop_function parse_function_empty_body [OF assms])
qed

lemma empty_body_ir:
  "generate_ir [Function n p []] = ''func '' @ n @ ''('' @ p @ '')'' @ ''\<newline>endfunc''"
  by (simp add: generate_ir_def)

section \<open>Properties of the target generator\<close>

lemma cpp_loop_lines:
  "cpp_loop nodes (ls, m) = (ls @ lines_from m nodes, m \<or> list_ex is_call nodes)"
proof (induction nodes arbitrary: ls m)
  case Nil
  then show ?case by simp
next
  case (Cons nd nodes)
  then show ?case by (cases nd) simp_all
qed

lemma lines_from_append:
  "lines_from m (xs @ ys) = lines_from m xs @ lines_from (m \<or> list_ex is_call xs) ys"
  by (induction xs arbitrary: m) simp_all

lemma generate_cpp_lines:
  "generate_cpp nodes =
     join ''\<newline>'' (preamble @ lines_from False nodes
        @ (if list_ex is_call nodes then [''    return 0;'', ''}''] else []))"
  by (simp add: generate_cpp_def cpp_loop_lines)

text \<open>
  C7. The lines of the target text follow the nodes: for a node anywhere in the sequence, the
  lines are the preamble, the lines of the nodes before it, its own lines, the lines of the
  nodes after it, and only then the two lines that close the entry point, if a call opened
  it. In particular a call that comes before a function definition puts the opening line of
  the entry point (when no earlier call has) and its call line before the lines of that
  definition; the return line and the closing brace come last.
\<close>

theorem emission_order:
  "generate_cpp (xs @ nd # ys) =
     join ''\<newline>''
       (preamble @ lines_from False xs @ node_lines (list_ex is_call xs) nd
          @ lines_from (list_ex is_call (xs @ [nd])) ys
          @ (if list_ex is_call (xs @ nd # ys) then [''    return 0;'', ''}''] else []))
   \<and> (\<not> list_ex is_call xs \<longrightarrow>
        generate_cpp (xs @ Call c a # ys @ Function f p b # zs) =
          join ''\<newline>''
            (preamble @ lines_from False xs
               @ [''\<newline>int main() {'', ''    '' @ c @ ''('' @ a @ '');'']
               @ lines_from True ys @ cpp_function f p b @ lines_from True zs
               @ [''    return 0;'', ''}'']))"
  by (simp add: generate_cpp_lines lines_from_append)

theorem emission_order_witness:
  "generate_cpp [Function ''g'' ''y'' [], Call ''f'' ''\"a\"'', Function ''f'' ''x'' [Print ''\"b\"'' ''x'']] =
     ''#include <iostream>\<newline>#include <string>\<newline>using namespace std;\<newline>\<newline>void g(string y) {\<newline>}\<newline>\<newline>int main() {\<newline>    f(\"a\");\<newline>void f(string x) {\<newline>    cout << \"b\" + x << endl;\<newline>}\<newline>    return 0;\<newline>}''"
proof -
  have h: "\<not> list_ex is_call [Function ''g'' ''y'' []]" by simp
  from emission_order [where xs = "[Function ''g'' ''y'' []]" and ys = "[]" and c = "''f''"
      and a = "''\"a\"''" and f = "''f''" and p = "''x''" and b = "[Print ''\"b\"'' ''x'']"
      and zs = "[]"] h
  have "generate_cpp ([Function ''g'' ''y'' []] @ Call ''f'' ''\"a\"'' # [] @ Function ''f'' ''x'' [Print ''\"b\"'' ''x''] # []) =
          join ''\<newline>''
            (preamble @ lines_from False [Function ''g'' ''y'' []]
               @ [''\<newline>int main() {'', ''    '' @ ''f'' @ ''('' @ ''\"a\"'' @ '');'']
               @ lines_from True [] @ cpp_function ''f'' ''x'' [Print ''\"b\"'' ''x''] @ lines_from True []
               @ [''    return 0;'', ''}''])"
    by blast
  then show ?thesis by (simp add: preamble_def cpp_function_def)
qed

lemma lines_from_no_call:
  "\<forall>nd \<in> set nodes. \<not> is_call nd \<Longrightarrow>
     lines_from m nodes = concat (map (\<lambda>nd. cpp_function (name nd) (param nd) (body nd)) nodes)"
proof (induction nodes)
  case Nil
  then show ?case by simp
next
  case (Cons nd nodes)
  then show ?case by (cases nd) simp_all
qed

lemma cpp_stmt_line: "x \<in> set (cpp_stmt st) \<Longrightarrow> take 8 x = ''    cout'' \<and> take 2 (rev x) = '';l''"
  by (cases st) auto

lemma cpp_function_line:
  assumes "x \<in> set (cpp_function n p b)"
  shows "hd x = CHR ''v'' \<or> x = ''}'' \<or> (take 8 x = ''    cout'' \<and> take 2 (rev x) = '';l'')"
  using assms by (auto simp: cpp_function_def dest: cpp_stmt_line)

lemma function_lines_shape:
  assumes "x \<in> set (preamble @ concat (map (\<lambda>nd. cpp_function (name nd) (param nd) (body nd)) nodes))"
  shows "x \<noteq> ''\<newline>int main() {'' \<and> x \<noteq> ''    return 0;'' \<and> x \<noteq> ''    '' @ n @ ''('' @ a @ '');''"
proof -
  from assms consider "x \<in> set preamble"
    | nd where "x \<in> set (cpp_function (name nd) (param nd) (body nd))"
    by auto
  then show ?thesis
  proof cases
    case 1
    then show ?thesis by (auto simp: preamble_def)
  next
    case 2
    from cpp_function_line [OF this] show ?thesis
      by auto
  qed
qed

text \<open>
  C4. Without a call node the target text is the preamble followed by the fragments of the
  function definitions: the line that opens the entry point, a call line and the return line
  do not occur.
\<close>

theorem no_entry_point:
  assumes "\<forall>nd \<in> set nodes. \<not> is_call nd"
  shows "\<exists>lines. generate_cpp nodes = join ''\<newline>'' lines
           \<and> lines = preamble @ concat (map (\<lambda>nd. cpp_function (name nd) (param nd) (body nd)) nodes)
           \<and> ''\<newline>int main() {'' \<notin> set lines \<and> ''    return 0;'' \<notin> set lines
           \<and> (\<forall>n a. ''    '' @ n @ ''('' @ a @ '');'' \<notin> set lines)"
proof -
  from assms have "\<not> list_ex is_call nodes" by (simp add: list_ex_iff)
  with assms have "generate_cpp nodes =
      join ''\<newline>'' (preamble @ concat (map (\<lambda>nd. cpp_function (name nd) (param nd) (body nd)) nodes))"
    by (simp add: generate_cpp_lines lines_from_no_call)
  then show ?thesis using function_lines_shape [of _ nodes] by blast
qed

theorem no_entry_point_witness:
  "generate_cpp [Function ''f'' ''x'' [], Function ''g'' ''y'' [Print ''\"a\"'' ''y'']] =
     ''#include <iostream>\<newline>#include <string>\<newline>using namespace std;\<newline>\<newline>void f(string x) {\<newline>}\<newline>void g(string y) {\<newline>    cout << \"a\" + y << endl;\<newline>}''"
proof -
  have h: "\<forall>nd \<in> set [Function ''f'' ''x'' [], Function ''g'' ''y'' [Print ''\"a\"'' ''y'']]. \<not> is_call nd"
    by simp
  from no_entry_point [OF h] show ?thesis
    by (simp add: preamble_def cpp_function_def)
qed

section \<open>A function definition through the whole pipeline\<close>

lemma finditer_token:
  assumes "tok_regex token_spec p (w @ rest) = Some (k, length w)" and "w \<noteq> []"
  shows "finditer p (w @ rest) = (k, w) # finditer (Some (last w)) rest"
proof -
  from assms(2) have "(w @ rest) ! (length w - 1) = last w"
    by (simp add: nth_append last_conv_nth)
  with finditer_step [OF assms(1)] assms(2) show ?thesis by simp
qed

lemma id_start_is_word: "is_id_start c \<Longrightarrow> is_word c"
  by (simp add: is_word_def)

lemma id_start_other:
  assumes "is_id_start c"
  shows "\<not> is_digit c" and "\<not> is_blank c" and "c \<noteq> CHR 0x22" and "c \<noteq> CHR ''=''" and "c \<noteq> CHR ''(''"
    and "c \<noteq> CHR '')''" and "c \<noteq> CHR '':''" and "c \<noteq> CHR '',''" and "c \<noteq> CHR ''+''"
    and "c \<noteq> CHR 0x0A"
  using assms by (auto simp: is_id_start_def is_digit_def is_blank_def Let_def)

lemma keyword_not_identifier:
  assumes "\<forall>c \<in> set kw. is_word c" and "w \<noteq> kw" and "w \<noteq> []" and "\<forall>c \<in> set (tl w). is_word c"
    and "\<not> word_at rest" and "kw \<noteq> []"
  shows "re_keyword kw p (w @ rest) = None"
proof (rule ccontr)
  assume "re_keyword kw p (w @ rest) \<noteq> None"
  then have t: "take (length kw) (w @ rest) = kw" and d: "\<not> word_at (drop (length kw) (w @ rest))"
    by (auto simp: re_keyword_def split: if_splits)
  consider "length w = length kw" | "length kw < length w" | "length w < length kw"
    by arith
  then show False
  proof cases
    case 1
    with t assms(2) show False by simp
  next
    case 2
    from assms(6) have "0 < length kw" by simp
    from 2 have dn: "drop (length kw) w \<noteq> []" by simp
    then have "hd (drop (length kw) w) = w ! length kw"
      by (simp add: hd_drop_conv_nth 2)
    also have "\<dots> = tl w ! (length kw - 1)"
      using \<open>0 < length kw\<close> 2 by (cases w) (simp_all add: nth_Cons')
    also have "\<dots> \<in> set (tl w)"
    proof -
      from \<open>0 < length kw\<close> 2 have "length kw - 1 < length w - 1" by arith
      then show ?thesis by (intro nth_mem) simp
    qed
    finally have "is_word (hd (drop (length kw) w))" using assms(4) by blast
    with dn d 2 show False
      by (cases "drop (length kw) w") (simp_all add: word_at_def)
  next
    case 3
    with t have kw: "kw = w @ take (length kw - length w) rest" by simp
    from 3 have "0 < length kw - length w" by simp
    with kw 3 have ne: "take (length kw - length w) rest \<noteq> []"
      by (metis append_Nil2 less_irrefl)
    then obtain c r where r: "rest = c # r" by (cases rest) auto
    with ne 3 have "c \<in> set (take (length kw - length w) rest)"
      by (cases "length kw - length w") simp_all
    with kw have "c \<in> set kw" by (metis Un_iff set_append)
    with assms(1) r assms(5) show False by (simp add: word_at_def)
  qed
qed

lemma keywords_are_words: "\<forall>c \<in> set ''def''. is_word c" "\<forall>c \<in> set ''print''. is_word c"
  by (simp_all add: is_word_def is_id_start_def)

lemma takeWhile_all: "\<forall>x \<in> set xs. P x \<Longrightarrow> takeWhile P (xs @ ys) = xs @ takeWhile P ys"
  by (induction xs) auto

lemma regex_identifier:
  assumes "is_identifier w" and "\<not> word_at rest"
  shows "tok_regex token_spec p (w @ rest) = Some (ID, length w)"
proof -
  from assms(1) obtain c w' where w: "w = c # w'" and c: "is_id_start c"
    and w': "\<forall>x \<in> set w'. is_word x"
    by (cases w) (auto simp: is_identifier_def)
  from assms(1) have k1: "re_keyword ''def'' p (w @ rest) = None"
    by (intro keyword_not_identifier keywords_are_words assms(2)) (simp_all add: is_identifier_def)
  from assms(1) have k2: "re_keyword ''print'' p (w @ rest) = None"
    by (intro keyword_not_identifier keywords_are_words assms(2)) (simp_all add: is_identifier_def)
  from assms(2) have tw: "takeWhile is_word rest = []"
    by (cases rest) (simp_all add: word_at_def)
  have "re_id p (w @ rest) = Some (length w)"
    using w c w' tw by (simp add: re_id_def takeWhile_all)
  with k1 k2 id_start_other [OF c] show ?thesis
    by (simp add: token_spec_def w re_string_def re_number_def re_char_def)
qed

lemma finditer_identifier:
  assumes "is_identifier w" and "\<not> word_at rest"
  shows "finditer p (w @ rest) = (ID, w) # finditer (Some (last w)) rest"
  using regex_identifier [OF assms] assms(1) by (intro finditer_token) (simp_all add: is_identifier_def)

lemma string_literal_shape:
  assumes "is_string_literal s"
  obtains b where "s = CHR 0x22 # b @ [CHR 0x22]" and "CHR 0x22 \<notin> set b"
proof -
  from assms have len: "2 \<le> length s" and h: "hd s = CHR 0x22" and l: "last s = CHR 0x22"
    and b: "CHR 0x22 \<notin> set (butlast (tl s))"
    by (simp_all add: is_string_literal_def)
  from len have ne: "s \<noteq> []" by auto
  from len have tne: "tl s \<noteq> []" by (cases s) auto
  with ne l have "last (tl s) = CHR 0x22" by (simp add: last_tl)
  with tne have "tl s = butlast (tl s) @ [CHR 0x22]" by (metis append_butlast_last_id)
  with ne h have "s = CHR 0x22 # butlast (tl s) @ [CHR 0x22]" by (metis list.collapse)
  with b that show ?thesis by blast
qed

lemma regex_string_literal:
  assumes "is_string_literal s"
  shows "tok_regex token_spec p (s @ rest) = Some (STRING, length s)"
proof -
  from assms obtain b where s: "s = CHR 0x22 # b @ [CHR 0x22]" and b: "CHR 0x22 \<notin> set b"
    by (rule string_literal_shape)
  from b have "takeWhile (\<lambda>x. x \<noteq> CHR 0x22) (b @ CHR 0x22 # rest) = b"
    by (induction b) auto
  then show ?thesis
    by (simp add: token_spec_def s re_keyword_def re_string_def)
qed

lemma finditer_string_literal:
  assumes "is_string_literal s"
  shows "finditer p (s @ rest) = (STRING, s) # finditer (Some (CHR 0x22)) rest"
proof -
  from assms have "s \<noteq> []" and "last s = CHR 0x22" by (auto simp: is_string_literal_def)
  with finditer_token [OF regex_string_literal [OF assms, of p rest]] show ?thesis by simp
qed


lemma finditer_def_keyword:
  assumes "\<not> word_before p" and "\<not> word_at rest"
  shows "finditer p (CHR ''d'' # CHR ''e'' # CHR ''f'' # rest) = (DEF, ''def'') # finditer (Some (CHR ''f'')) rest"
proof -
  from assms have "tok_regex token_spec p (''def'' @ rest) = Some (DEF, length ''def'')"
    by (simp add: token_spec_def re_keyword_def)
  from finditer_token [OF this] show ?thesis by simp
qed

lemma finditer_print_keyword:
  assumes "\<not> word_before p" and "\<not> word_at rest"
  shows "finditer p (CHR ''p'' # CHR ''r'' # CHR ''i'' # CHR ''n'' # CHR ''t'' # rest) =
           (PRINT, ''print'') # finditer (Some (CHR ''t'')) rest"
proof -
  from assms have "tok_regex token_spec p (''print'' @ rest) = Some (PRINT, length ''print'')"
    by (simp add: token_spec_def re_keyword_def)
  from finditer_token [OF this] show ?thesis by simp
qed

lemma finditer_punctuation:
  "finditer p (CHR ''('' # rest) = (LPAREN, ''('') # finditer (Some (CHR ''('')) rest"
  "finditer p (CHR '')'' # rest) = (RPAREN, '')'') # finditer (Some (CHR '')'')) rest"
  "finditer p (CHR '':'' # rest) = (COLON, '':'') # finditer (Some (CHR '':'')) rest"
  "finditer p (CHR ''+'' # rest) = (PLUS, ''+'') # finditer (Some (CHR ''+'')) rest"
proof -
  have "tok_regex token_spec p (''('' @ rest) = Some (LPAREN, length ''('')"
    by (simp add: token_spec_def re_keyword_def re_string_def re_number_def re_char_def is_digit_def)
  from finditer_token [OF this]
  show "finditer p (CHR ''('' # rest) = (LPAREN, ''('') # finditer (Some (CHR ''('')) rest" by simp
  have "tok_regex token_spec p ('')'' @ rest) = Some (RPAREN, length '')'')"
    by (simp add: token_spec_def re_keyword_def re_string_def re_number_def re_char_def is_digit_def)
  from finditer_token [OF this]
  show "finditer p (CHR '')'' # rest) = (RPAREN, '')'') # finditer (Some (CHR '')'')) rest" by simp
  have "tok_regex token_spec p ('':'' @ rest) = Some (COLON, length '':'')"
    by (simp add: token_spec_def re_keyword_def re_string_def re_number_def re_char_def is_digit_def)
  from finditer_token [OF this]
  show "finditer p (CHR '':'' # rest) = (COLON, '':'') # finditer (Some (CHR '':'')) rest" by simp
  have "tok_regex token_spec p (''+'' @ rest) = Some (PLUS, length ''+'')"
    by (simp add: token_spec_def re_keyword_def re_string_def re_number_def re_char_def is_digit_def)
  from finditer_token [OF this]
  show "finditer p (CHR ''+'' # rest) = (PLUS, ''+'') # finditer (Some (CHR ''+'')) rest" by simp
qed

lemma finditer_newline:
  "finditer p (CHR 0x0A # rest) = (NEWLINE, [CHR 0x0A]) # finditer (Some (CHR 0x0A)) rest"
  using finditer_token [of p "[CHR 0x0A]" rest NEWLINE] regex_newline [of p rest] by simp

lemma finditer_spaces:
  assumes "\<forall>c \<in> set bs. c = CHR '' ''" and "takeWhile is_blank rest = []"
  shows "finditer p (CHR '' '' # bs @ rest) = (SKIP, CHR '' '' # bs) # finditer (Some (CHR '' '')) rest"
proof -
  from assms(1) have "\<forall>c \<in> set bs. is_blank c" by (simp add: is_blank_def)
  with assms(2) have "takeWhile is_blank (bs @ rest) = bs" by (simp add: takeWhile_all)
  with regex_space [of p "bs @ rest"]
  have "tok_regex token_spec p ((CHR '' '' # bs) @ rest) = Some (SKIP, length (CHR '' '' # bs))"
    by simp
  from finditer_token [OF this] assms(1) show ?thesis
    by (cases bs rule: rev_cases) simp_all
qed

lemma no_blank_before_identifier:
  "is_identifier w \<Longrightarrow> takeWhile is_blank (w @ rest) = []"
  by (cases w) (auto simp: is_identifier_def dest: id_start_other)


lemma scan_function_definition:
  assumes "is_identifier f" and "is_identifier p" and "is_identifier r" and "is_string_literal s"
  shows "finditer None (''def '' @ f @ ''('' @ p @ ''):\<newline>    print('' @ s @ '' + '' @ r @ '')'') =
     [(DEF, ''def''), (SKIP, '' ''), (ID, f), (LPAREN, ''(''), (ID, p), (RPAREN, '')''),
      (COLON, '':''), (NEWLINE, ''\<newline>''), (SKIP, ''    ''), (PRINT, ''print''), (LPAREN, ''(''),
      (STRING, s), (SKIP, '' ''), (PLUS, ''+''), (SKIP, '' ''), (ID, r), (RPAREN, '')'')]"
proof -
  note sp1 = finditer_spaces [of "[]", simplified]
  note sp4 = finditer_spaces [of "''   ''", simplified]
  from assms show ?thesis
    by (simp add: finditer_def_keyword finditer_print_keyword finditer_punctuation
        finditer_newline sp1 sp4 finditer_identifier finditer_string_literal
        no_blank_before_identifier finditer_Nil word_before_def word_at_def is_word_def
        is_digit_def is_id_start_def is_blank_def)
qed

lemma parse_function_definition:
  "parse_tokens [(DEF, d), (ID, f), (LPAREN, l1), (ID, p), (RPAREN, r1), (COLON, c),
                 (PRINT, pr), (LPAREN, l2), (STRING, s), (PLUS, pl), (ID, r), (RPAREN, r2)] =
     Inr [Function f p [Print s r]]"
proof -
  let ?ts = "[(DEF, d), (ID, f), (LPAREN, l1), (ID, p), (RPAREN, r1), (COLON, c),
              (PRINT, pr), (LPAREN, l2), (STRING, s), (PLUS, pl), (ID, r), (RPAREN, r2)]"
  have h: "first_failure ?ts 0 def_header = None" by (simp add: def_header_def)
  have b: "first_failure ?ts (0 + 6) print_form = None"
    by (simp add: print_form_def eval_nat_numeral)
  have "parse_function ?ts 0 = Inr (Function f p [Print s r], 12)"
    using print_matches [OF h _ _ b] by (simp add: eval_nat_numeral)
  then show ?thesis
    by (simp add: parse_tokens_def parse_loop_function parse_loop_end)
qed

text \<open>
  C8. A function definition whose print statement names any identifier \<^verbatim>\<open>r\<close>, the
  declared parameter \<^verbatim>\<open>p\<close> or another one: the lexer and the parser succeed, nothing
  compares the two names, the header of the IR and of the target function carries \<^verbatim>\<open>p\<close>,
  and the temporary assignment and the output statement carry \<^verbatim>\<open>r\<close>, each as written.
\<close>

theorem parameter_not_checked:
  assumes "is_identifier f" and "is_identifier p" and "is_identifier r" and "is_string_literal s"
  shows "translate_code (''def '' @ f @ ''('' @ p @ ''):\<newline>    print('' @ s @ '' + '' @ r @ '')'') =
     Inr ([(DEF, ''def''), (ID, f), (LPAREN, ''(''), (ID, p), (RPAREN, '')''), (COLON, '':''),
           (PRINT, ''print''), (LPAREN, ''(''), (STRING, s), (PLUS, ''+''), (ID, r), (RPAREN, '')'')],
          [Function f p [Print s r]],
          ''func '' @ f @ ''('' @ p @ '')\<newline>t1 = '' @ s @ '' + '' @ r @ ''\<newline>print t1\<newline>endfunc'',
          ''#include <iostream>\<newline>#include <string>\<newline>using namespace std;\<newline>\<newline>void '' @ f
            @ ''(string '' @ p @ '') {\<newline>    cout << '' @ s @ '' + '' @ r @ '' << endl;\<newline>}'')"
proof -
  have t: "tokenize (''def '' @ f @ ''('' @ p @ ''):\<newline>    print('' @ s @ '' + '' @ r @ '')'') =
     Inr [(DEF, ''def''), (ID, f), (LPAREN, ''(''), (ID, p), (RPAREN, '')''), (COLON, '':''),
          (PRINT, ''print''), (LPAREN, ''(''), (STRING, s), (PLUS, ''+''), (ID, r), (RPAREN, '')'')]"
    unfolding tokenize_def scan_function_definition [OF assms] by simp
  have i: "generate_ir [Function f p [Print s r]] =
      ''func '' @ f @ ''('' @ p @ '')\<newline>t1 = '' @ s @ '' + '' @ r @ ''\<newline>print t1\<newline>endfunc''"
    by (simp add: generate_ir_def)
  have c: "generate_cpp [Function f p [Print s r]] =
      ''#include <iostream>\<newline>#include <string>\<newline>using namespace std;\<newline>\<newline>void '' @ f
        @ ''(string '' @ p @ '') {\<newline>    cout << '' @ s @ '' + '' @ r @ '' << endl;\<newline>}''"
    by (simp add: generate_cpp_def preamble_def cpp_function_def)
  show ?thesis
    unfolding translate_code_def t
    by (simp only: bind_result_def sum.case parse_function_definition i c)
qed

theorem parameter_not_checked_witness:
  "translate_code ''def greet(name):\<newline>    print(\"Hello \" + other)'' =
     Inr ([(DEF, ''def''), (ID, ''greet''), (LPAREN, ''(''), (ID, ''name''), (RPAREN, '')''),
           (COLON, '':''), (PRINT, ''print''), (LPAREN, ''(''), (STRING, ''\"Hello \"''),
           (PLUS, ''+''), (ID, ''other''), (RPAREN, '')'')],
          [Function ''greet'' ''name'' [Print ''\"Hello \"'' ''other'']],
          ''func greet(name)\<newline>t1 = \"Hello \" + other\<newline>print t1\<newline>endfunc'',
          ''#include <iostream>\<newline>#include <string>\<newline>using namespace std;\<newline>\<newline>void greet(string name) {\<newline>    cout << \"Hello \" + other << endl;\<newline>}'')"
proof -
  have "is_identifier ''greet''" and "is_identifier ''name''" and "is_identifier ''other''"
    and "is_string_literal ''\"Hello \"''"
    by (simp_all add: is_identifier_def is_string_literal_def is_id_start_def is_word_def is_digit_def)
  from parameter_not_checked [OF this] show ?thesis by simp
qed

end
